theory Spec2Isabelle
  imports Main "HOL-Library.Word" "HOL-Library.Signed_Division"
begin

unbundle bit_operations_syntax

section \<open>Data model of \<open>internal/locate/statistics.go\<close>\<close>

text \<open>
  Go's \<open>uint64\<close> and \<open>int64\<close> are both 64-bit words: \<open>+\<close> wraps, \<open>unat\<close> reads a
  word as unsigned and \<open>sint\<close> as two's complement.  Go's \<open>int\<close> is taken to be
  64 bits wide (as on every 64-bit platform), so \<open>int(ts)\<close> keeps the value of
  \<open>ts\<close>.  A \<open>time.Time\<close> argument is represented by the only thing the code
  reads from it: the result of \<open>Unix()\<close>, an \<open>int64\<close>.
\<close>

type_synonym uint64 = "64 word"
type_synonym int64 = "64 word"

datatype error = IndexOutOfRange | DivideByZero

definition bucketsCount :: int where
  "bucketsCount = 10"

definition counterBytes :: nat where
  "counterBytes = 3"

definition counterMusk :: uint64 where
  "counterMusk = push_bit counterBytes 1 - 1"

definition numOfLastStats :: nat where
  "numOfLastStats = 5"

record bucket =
  countAndTotal :: uint64
  ts :: int64

record SingleStat =
  Count :: uint64
  Sum :: uint64

type_synonym Stats = "SingleStat list"

record latencyStats =
  buckets :: "bucket list"

text \<open>The zero value of a bucket and of the ring (a Go array of \<open>bucketsCount\<close> buckets).\<close>

definition zeroBucket :: bucket where
  "zeroBucket = \<lparr>countAndTotal = 0, ts = 0\<rparr>"

definition zeroLatencyStats :: latencyStats where
  "zeroLatencyStats = \<lparr>buckets = replicate (nat bucketsCount) zeroBucket\<rparr>"

text \<open>The array type fixes the number of buckets.\<close>

definition wf_latencyStats :: "latencyStats \<Rightarrow> bool" where
  "wf_latencyStats s = (int (length (buckets s)) = bucketsCount)"

section \<open>Bucket: single-threaded execution\<close>

text \<open>
  \<open>bucket.observe\<close> run without interference: the compare-and-swap of \<open>ts\<close>
  from the value just loaded always succeeds, so the branch stores 0.
\<close>

definition bucket_observe :: "bucket \<Rightarrow> int64 \<Rightarrow> uint64 \<Rightarrow> bucket" where
  "bucket_observe b t ms =
     (let oldTs = ts b;
          b1 = (if oldTs \<noteq> t
                then (if ts b = oldTs then b\<lparr>ts := t, countAndTotal := 0\<rparr> else b)
                else b);
          composedValue = (push_bit counterBytes ms) OR 1
      in b1\<lparr>countAndTotal := countAndTotal b1 + composedValue\<rparr>)"

definition bucket_load :: "bucket \<Rightarrow> SingleStat" where
  "bucket_load b =
     (let composedValue = countAndTotal b
      in \<lparr>Count = composedValue AND counterMusk,
          Sum = drop_bit counterBytes composedValue\<rparr>)"

section \<open>The ring\<close>

text \<open>
  Indexing a Go array panics when the index is negative or not below the length.
  Go's \<open>%\<close> truncates towards zero (\<open>smod\<close>), so its result has the sign of the dividend.
\<close>

definition index_bucket :: "bucket list \<Rightarrow> int \<Rightarrow> error + bucket" where
  "index_bucket bs k =
     (if 0 \<le> k \<and> k < int (length bs) then Inr (bs ! nat k) else Inl IndexOutOfRange)"

definition latencyStats_observe :: "latencyStats \<Rightarrow> int64 \<Rightarrow> uint64 \<Rightarrow> error + latencyStats" where
  "latencyStats_observe s now val =
     (let t = now;
          idx = sint t smod bucketsCount
      in case index_bucket (buckets s) idx of
           Inl e \<Rightarrow> Inl e
         | Inr b \<Rightarrow> Inr (s\<lparr>buckets := (buckets s)[nat idx := bucket_observe b t val]\<rparr>))"

function getLatestStats_loop :: "latencyStats \<Rightarrow> int \<Rightarrow> nat \<Rightarrow> Stats \<Rightarrow> error + Stats" where
  "getLatestStats_loop s idx i res =
     (if i < numOfLastStats
      then (case index_bucket (buckets s) ((idx + bucketsCount - int i) smod bucketsCount) of
              Inl e \<Rightarrow> Inl e
            | Inr b \<Rightarrow> getLatestStats_loop s idx (i + 1) (res @ [bucket_load b]))
      else Inr res)"
  by pat_completeness auto
termination
  by (relation "measure (\<lambda>(s, idx, i, res). numOfLastStats - i)") auto

declare getLatestStats_loop.simps [simp del]

definition getLatestStats :: "latencyStats \<Rightarrow> int64 \<Rightarrow> error + Stats" where
  "getLatestStats s now =
     (let res = [];
          idx = sint now smod bucketsCount
      in getLatestStats_loop s idx 0 res)"

section \<open>Aggregation\<close>

text \<open>Integer division by zero panics in Go; in HOL it would silently be 0.\<close>

definition Avg :: "SingleStat \<Rightarrow> error + uint64" where
  "Avg s = (if Count s = 0 then Inl DivideByZero else Inr (Sum s div Count s))"

fun TotalCount_loop :: "Stats \<Rightarrow> uint64 \<Rightarrow> uint64" where
  "TotalCount_loop [] count = count"
| "TotalCount_loop (st # s) count = TotalCount_loop s (count + Count st)"

definition TotalCount :: "Stats \<Rightarrow> uint64" where
  "TotalCount s = TotalCount_loop s 0"

section \<open>Sequences of single-threaded calls\<close>

text \<open>
  The claims speak of several \<open>observe\<close> calls made one after the other by one thread,
  all for the same second \<open>t\<close>, with the values \<open>vs\<close> in order.
\<close>

definition bucket_observes :: "bucket \<Rightarrow> int64 \<Rightarrow> uint64 list \<Rightarrow> bucket" where
  "bucket_observes b t vs = foldl (\<lambda>b v. bucket_observe b t v) b vs"

fun latencyStats_observes :: "latencyStats \<Rightarrow> int64 \<Rightarrow> uint64 list \<Rightarrow> error + latencyStats" where
  "latencyStats_observes s t [] = Inr s"
| "latencyStats_observes s t (v # vs) =
     (case latencyStats_observe s t v of
        Inl e \<Rightarrow> Inl e
      | Inr s' \<Rightarrow> latencyStats_observes s' t vs)"

text \<open>The exact (unbounded) sum of the observed values.\<close>

definition sum_of :: "uint64 list \<Rightarrow> nat" where
  "sum_of vs = sum_list (map unat vs)"

text \<open>
  The bucket holds no sample of second \<open>t\<close> before the calls \<open>vs\<close>: either its
  packed word is zero (as in a new ring), or it belongs to another second and the first
  call of \<open>vs\<close> clears it.
\<close>

definition window_closed :: "bucket \<Rightarrow> int64 \<Rightarrow> uint64 list \<Rightarrow> bool" where
  "window_closed b t vs = (countAndTotal b = 0 \<or> (ts b \<noteq> t \<and> vs \<noteq> []))"

section \<open>Bucket: concurrent execution\<close>

text \<open>
  Every access of \<open>bucket.observe\<close> to the bucket is one atomic operation, and Go's
  atomics are sequentially consistent, so an execution of several goroutines is an
  interleaving of their atomic operations.  A goroutine inside \<open>observe\<close> is at one of
  its four operations (the load of \<open>ts\<close>, the compare-and-swap with the value loaded, the
  store of 0, the add) or has returned; \<open>goroutine_step\<close> performs the operation it is at.
\<close>

datatype position = AtLoad | AtCAS int64 | AtStore | AtAdd | Returned

record goroutine =
  pos :: position
  arg_ts :: int64
  arg_ms :: uint64

type_synonym config = "bucket \<times> goroutine list"

definition goroutine_step :: "bucket \<Rightarrow> goroutine \<Rightarrow> bucket \<times> goroutine" where
  "goroutine_step b g =
     (case pos g of
        AtLoad \<Rightarrow>
          (let oldTs = ts b
           in (b, g\<lparr>pos := (if oldTs \<noteq> arg_ts g then AtCAS oldTs else AtAdd)\<rparr>))
      | AtCAS oldTs \<Rightarrow>
          (if ts b = oldTs then (b\<lparr>ts := arg_ts g\<rparr>, g\<lparr>pos := AtStore\<rparr>)
           else (b, g\<lparr>pos := AtAdd\<rparr>))
      | AtStore \<Rightarrow> (b\<lparr>countAndTotal := 0\<rparr>, g\<lparr>pos := AtAdd\<rparr>)
      | AtAdd \<Rightarrow>
          (let composedValue = (push_bit counterBytes (arg_ms g)) OR 1
           in (b\<lparr>countAndTotal := countAndTotal b + composedValue\<rparr>, g\<lparr>pos := Returned\<rparr>))
      | Returned \<Rightarrow> (b, g))"

text \<open>
  A schedule is the list of the goroutines that take the successive steps; a goroutine
  that has returned (or an index naming none) leaves the state as it is.
\<close>

definition sched_step :: "nat \<Rightarrow> config \<Rightarrow> config" where
  "sched_step i c =
     (case c of (b, gs) \<Rightarrow>
        if i < length gs
        then (case goroutine_step b (gs ! i) of (b', g') \<Rightarrow> (b', gs[i := g']))
        else (b, gs))"

definition run :: "nat list \<Rightarrow> config \<Rightarrow> config" where
  "run sched c = foldl (\<lambda>c i. sched_step i c) c sched"

definition spawn :: "int64 \<Rightarrow> uint64 \<Rightarrow> goroutine" where
  "spawn t v = \<lparr>pos = AtLoad, arg_ts = t, arg_ms = v\<rparr>"

definition all_returned :: "config \<Rightarrow> bool" where
  "all_returned c = list_all (\<lambda>g. pos g = Returned) (snd c)"

text \<open>For the proofs: the number of goroutines at a position, and the steps a position has left.\<close>

definition cnt :: "position \<Rightarrow> goroutine list \<Rightarrow> nat" where
  "cnt p gs = length (filter (\<lambda>g. pos g = p) gs)"

fun steps_left :: "position \<Rightarrow> nat" where
  "steps_left AtLoad = 4"
| "steps_left (AtCAS oldTs) = 3"
| "steps_left AtStore = 2"
| "steps_left AtAdd = 1"
| "steps_left Returned = 0"

text \<open>
  The invariant of the executions in which every goroutine observes the same second \<open>t\<close>,
  started on the bucket \<open>b0\<close>.  Either \<open>b0\<close> is already at \<open>t\<close> and nothing is ever
  cleared; or no compare-and-swap has succeeded yet; or one has, and its goroutine is about
  to store 0 or has done so, after which the packed word is the sum of the adds made since.
\<close>

definition phase_same :: "int64 \<Rightarrow> config \<Rightarrow> bool" where
  "phase_same t c = (case c of (b, gs) \<Rightarrow>
     ts b = t \<and> (\<forall>g\<in>set gs. pos g = AtLoad \<or> pos g = AtAdd \<or> pos g = Returned)
     \<and> (\<exists>S. countAndTotal b = of_nat (8 * S + cnt Returned gs)))"

definition phase_stale :: "bucket \<Rightarrow> config \<Rightarrow> bool" where
  "phase_stale b0 c = (case c of (b, gs) \<Rightarrow>
     ts b = ts b0 \<and> (\<forall>g\<in>set gs. pos g = AtLoad \<or> pos g = AtCAS (ts b0)))"

definition phase_won :: "int64 \<Rightarrow> config \<Rightarrow> bool" where
  "phase_won t c = (case c of (b, gs) \<Rightarrow>
     ts b = t \<and> (\<forall>g\<in>set gs. pos g \<noteq> AtCAS t) \<and> cnt AtStore gs \<le> 1
     \<and> (cnt AtStore gs = 1
        \<or> (\<exists>S n. countAndTotal b = of_nat (8 * S + n) \<and> n \<le> cnt Returned gs
                  \<and> 1 \<le> n + cnt AtAdd gs)))"

definition observe_inv :: "bucket \<Rightarrow> int64 \<Rightarrow> config \<Rightarrow> bool" where
  "observe_inv b0 t c =
     ((\<forall>g\<in>set (snd c). arg_ts g = t) \<and>
      (if ts b0 = t then phase_same t c else phase_stale b0 c \<or> phase_won t c))"

section \<open>Properties of the aggregation\<close>

lemma TotalCount_loop_sum:
  "TotalCount_loop s count = count + of_nat (sum_list (map (\<lambda>st. unat (Count st)) s))"
  by (induction s arbitrary: count) (simp_all add: algebra_simps)

text \<open>
  C8. \<open>TotalCount\<close> returns the sum of the \<open>Count\<close> fields of all entries, in the
  wrapping arithmetic of the 64-bit accumulator: read as a number, the result is the
  exact sum modulo \<open>2 ^ 64\<close>.
\<close>

theorem TotalCount_is_wrapping_sum:
  "unat (TotalCount s) = sum_list (map (\<lambda>st. unat (Count st)) s) mod 2 ^ 64"
  by (simp add: TotalCount_def TotalCount_loop_sum unat_of_nat)

text \<open>
  C4. With \<open>Count > 0\<close>, \<open>Avg\<close> returns the truncating quotient of \<open>Sum\<close> by
  \<open>Count\<close>; with \<open>Count = 0\<close> it is a division by zero.  The error branch is taken
  exactly when \<open>Count = 0\<close>.
\<close>

theorem Avg_div_or_panic:
  "(0 < Count s \<longrightarrow> (\<exists>q. Avg s = Inr q \<and> unat q = unat (Sum s) div unat (Count s)))
   \<and> (Count s = 0 \<longrightarrow> Avg s = Inl DivideByZero)
   \<and> (Avg s = Inl DivideByZero \<longrightarrow> Count s = 0)"
  by (auto simp: Avg_def unat_div word_greater_zero_iff)

theorem Avg_div_or_panic_witness:
  "Avg \<lparr>Count = 3, Sum = 60\<rparr> = Inr 20 \<and> Avg \<lparr>Count = 0, Sum = 60\<rparr> = Inl DivideByZero"
  using Avg_div_or_panic [of "\<lparr>Count = 3, Sum = 60\<rparr>"]
        Avg_div_or_panic [of "\<lparr>Count = 0, Sum = 60\<rparr>"]
  by (simp add: Avg_def)


section \<open>The packed word\<close>

lemma composed_eq: "push_bit counterBytes (ms::uint64) OR 1 = 8 * ms + 1"
  by (simp add: counterBytes_def or_one_eq push_bit_eq_mult)

lemma counterMusk_eq: "counterMusk = mask 3"
  by (simp add: counterMusk_def counterBytes_def mask_eq_exp_minus_1)

lemma bucket_load_Count: "unat (Count (bucket_load b)) = unat (countAndTotal b) mod 8"
  by (simp add: bucket_load_def Let_def counterMusk_eq unsigned_take_bit_eq take_bit_eq_mod
           unat_mod flip: take_bit_eq_mask)

lemma bucket_load_Sum: "unat (Sum (bucket_load b)) = unat (countAndTotal b) div 8"
  by (simp add: bucket_load_def Let_def counterBytes_def unat_drop_bit_eq drop_bit_eq_div unat_div)

lemma bucket_observe_cat:
  "countAndTotal (bucket_observe b t v) = (if ts b = t then countAndTotal b else 0) + (8 * v + 1)"
  by (simp add: bucket_observe_def composed_eq Let_def)

lemma bucket_observe_ts: "ts (bucket_observe b t v) = t"
  by (simp add: bucket_observe_def Let_def)

lemma bucket_observes_Nil: "bucket_observes b t [] = b"
  by (simp add: bucket_observes_def)

lemma bucket_observes_Cons: "bucket_observes b t (v # vs) = bucket_observes (bucket_observe b t v) t vs"
  by (simp add: bucket_observes_def)

lemma bucket_observes_same:
  "ts b = t \<Longrightarrow> countAndTotal (bucket_observes b t vs)
     = countAndTotal b + of_nat (8 * sum_of vs + length vs)"
proof (induction vs arbitrary: b)
  case Nil
  then show ?case by (simp add: bucket_observes_Nil sum_of_def)
next
  case (Cons v vs)
  have "ts (bucket_observe b t v) = t" by (rule bucket_observe_ts)
  from Cons.IH [OF this] Cons.prems show ?case
    by (simp add: bucket_observes_Cons bucket_observe_cat sum_of_def algebra_simps)
qed

lemma bucket_observes_fresh:
  assumes "window_closed b t vs"
  shows "countAndTotal (bucket_observes b t vs) = of_nat (8 * sum_of vs + length vs)"
proof (cases vs)
  case Nil
  with assms show ?thesis by (simp add: window_closed_def bucket_observes_Nil sum_of_def)
next
  case (Cons v ws)
  have "countAndTotal (bucket_observe b t v) = 8 * v + 1"
    using assms by (auto simp: bucket_observe_cat window_closed_def)
  with bucket_observes_same [OF bucket_observe_ts, of b t v ws] Cons show ?thesis
    by (simp add: bucket_observes_Cons sum_of_def algebra_simps)
qed

lemma bucket_observes_unat:
  assumes "window_closed b t vs"
  shows "unat (countAndTotal (bucket_observes b t vs)) = (8 * sum_of vs + length vs) mod 2 ^ 64"
  by (simp only: bucket_observes_fresh [OF assms] unat_of_nat) simp

lemma bucket_load_Count_le: "unat (Count (bucket_load b)) \<le> 7"
  by (simp add: bucket_load_Count)

lemma div8_of_wrapped: "((8 * a + n) mod 2 ^ 64) div 8 = (a + n div 8) mod 2 ^ 61" for a n :: nat
proof -
  define q :: nat where "q = 2 ^ 61"
  have "(8 * a + n) mod (8 * q) = 8 * ((8 * a + n) div 8 mod q) + (8 * a + n) mod 8"
    by (rule mod_mult2_eq)
  then have "(8 * a + n) mod (8 * q) div 8 = (8 * a + n) div 8 mod q"
    by simp
  moreover have "(8 * a + n) div 8 = a + n div 8" by simp
  moreover have "8 * q = 2 ^ 64" by (simp add: q_def)
  ultimately show ?thesis by (simp add: q_def)
qed

lemma mod8_of_wrapped: "((8 * a + n) mod 2 ^ 64) mod 8 = n mod 8" for a n :: nat
proof -
  have "(8::nat) dvd 2 ^ 64" by simp
  then have "((8 * a + n) mod 2 ^ 64) mod 8 = (8 * a + n) mod 8"
    by (rule mod_mod_cancel)
  then show ?thesis by simp
qed

lemma bucket_observes_Count:
  "window_closed b t vs \<Longrightarrow> unat (Count (bucket_load (bucket_observes b t vs))) = length vs mod 8"
  by (simp only: bucket_load_Count bucket_observes_unat mod8_of_wrapped)

lemma bucket_observes_Sum:
  "window_closed b t vs \<Longrightarrow>
   unat (Sum (bucket_load (bucket_observes b t vs))) = (sum_of vs + length vs div 8) mod 2 ^ 61"
  by (simp only: bucket_load_Sum bucket_observes_unat div8_of_wrapped)

lemma bucket_observe_twice:
  "s1 \<noteq> s2 \<Longrightarrow> countAndTotal (bucket_observe (bucket_observe b s1 v1) s2 v2) = 8 * v2 + 1"
  by (simp add: bucket_observe_cat bucket_observe_ts)

lemma load_single:
  assumes "countAndTotal b = 8 * v + 1"
  shows "unat (Count (bucket_load b)) = 1" and "unat (Sum (bucket_load b)) = unat v mod 2 ^ 61"
proof -
  have u: "unat (countAndTotal b) = (8 * unat v + 1) mod 2 ^ 64"
    by (simp add: assms unat_word_ariths mod_simps)
  show "unat (Count (bucket_load b)) = 1"
    by (simp only: bucket_load_Count u mod8_of_wrapped) simp
  show "unat (Sum (bucket_load b)) = unat v mod 2 ^ 61"
    by (simp only: bucket_load_Sum u div8_of_wrapped) simp
qed

section \<open>Properties of a bucket\<close>




text \<open>
  C5. The count field is 3 bits wide.  After more than 7 single-threaded \<open>observe\<close>
  calls for one second (and fewer than \<open>2 ^ 64\<close>), \<open>load\<close> reports the number of calls
  modulo 8, which is not the true count, and the carries out of the count field are added
  to the sum field, so the reported sum differs from the exact sum.  After exactly 8 calls
  whose sum plus one fits 61 bits, \<open>Count = 0\<close> and \<open>Sum\<close> is the exact sum plus 1.
\<close>

theorem count_field_overflow:
  assumes "window_closed b t vs" "7 < length vs" "length vs < 2 ^ 64"
  shows "unat (Count (bucket_load (bucket_observes b t vs))) = length vs mod 8
       \<and> unat (Count (bucket_load (bucket_observes b t vs))) \<noteq> length vs
       \<and> unat (Sum (bucket_load (bucket_observes b t vs))) = (sum_of vs + length vs div 8) mod 2 ^ 61
       \<and> unat (Sum (bucket_load (bucket_observes b t vs))) \<noteq> sum_of vs
       \<and> (length vs = 8 \<and> sum_of vs + 1 < 2 ^ 61 \<longrightarrow>
            Count (bucket_load (bucket_observes b t vs)) = 0
          \<and> unat (Sum (bucket_load (bucket_observes b t vs))) = sum_of vs + 1)"
proof -
  let ?r = "bucket_load (bucket_observes b t vs)"
  have c: "unat (Count ?r) = length vs mod 8" by (rule bucket_observes_Count [OF assms(1)])
  have s: "unat (Sum ?r) = (sum_of vs + length vs div 8) mod 2 ^ 61"
    by (rule bucket_observes_Sum [OF assms(1)])
  have c': "unat (Count ?r) \<noteq> length vs" using c assms(2) by presburger
  have k: "1 \<le> length vs div 8" "length vs div 8 < 2 ^ 61" using assms(2,3) by simp_all
  have s': "unat (Sum ?r) \<noteq> sum_of vs"
  proof (cases "sum_of vs < 2 ^ 61")
    case True
    show ?thesis
    proof (cases "sum_of vs + length vs div 8 < 2 ^ 61")
      case True
      then show ?thesis using s k by simp
    next
      case False
      then have "(sum_of vs + length vs div 8) mod 2 ^ 61 = sum_of vs + length vs div 8 - 2 ^ 61"
        using True k by (simp add: mod_if)
      then show ?thesis using s k True False by arith
    qed
  next
    case False
    have "unat (Sum ?r) < 2 ^ 61" by (simp only: s) simp
    then show ?thesis using False by simp
  qed
  have e: "length vs = 8 \<and> sum_of vs + 1 < 2 ^ 61 \<longrightarrow> Count ?r = 0 \<and> unat (Sum ?r) = sum_of vs + 1"
  proof (intro impI, elim conjE)
    assume a: "length vs = 8" "sum_of vs + 1 < 2 ^ 61"
    from c a have "unat (Count ?r) = 0" by simp
    then have "Count ?r = 0" by (simp add: unat_eq_0)
    moreover from s a have "unat (Sum ?r) = sum_of vs + 1" by simp
    ultimately show "Count ?r = 0 \<and> unat (Sum ?r) = sum_of vs + 1" by simp
  qed
  from c c' s s' e show ?thesis by blast
qed

theorem count_field_overflow_witness:
  "window_closed zeroBucket 100 [1, 2, 3, 4, 5, 6, 7, 8] \<and> 7 < length [1, 2, 3, 4, 5, 6, 7, 8 :: uint64]
   \<and> length [1, 2, 3, 4, 5, 6, 7, 8 :: uint64] = 8 \<and> sum_of [1, 2, 3, 4, 5, 6, 7, 8] + 1 < 2 ^ 61
   \<and> Count (bucket_load (bucket_observes zeroBucket 100 [1, 2, 3, 4, 5, 6, 7, 8])) = 0
   \<and> unat (Sum (bucket_load (bucket_observes zeroBucket 100 [1, 2, 3, 4, 5, 6, 7, 8]))) = 37"
  using count_field_overflow [of zeroBucket 100 "[1, 2, 3, 4, 5, 6, 7, 8]"]
  by (simp add: window_closed_def zeroBucket_def sum_of_def)

text \<open>
  C7 (as amended).  After \<open>observe(s, v1)\<close> and then \<open>observe(s + 1, v2)\<close> by one
  thread, whatever the bucket held before, \<open>load\<close> yields \<open>Count = 1\<close> and \<open>Sum\<close>
  equal to \<open>v2\<close> modulo \<open>2 ^ 61\<close>; this is \<open>v2\<close> itself whenever \<open>v2 < 2 ^ 61\<close>.
\<close>

theorem second_boundary_resets:
  "unat (Count (bucket_load (bucket_observe (bucket_observe b s v1) (s + 1) v2))) = 1
 \<and> unat (Sum (bucket_load (bucket_observe (bucket_observe b s v1) (s + 1) v2))) = unat v2 mod 2 ^ 61
 \<and> (v2 < 2 ^ 61 \<longrightarrow> Sum (bucket_load (bucket_observe (bucket_observe b s v1) (s + 1) v2)) = v2)"
proof -
  have "s \<noteq> s + 1" by simp
  note c = bucket_observe_twice [OF this, of b v1 v2]
  note l = load_single [OF c]
  have "v2 < 2 ^ 61 \<longrightarrow> Sum (bucket_load (bucket_observe (bucket_observe b s v1) (s + 1) v2)) = v2"
  proof
    assume "v2 < 2 ^ 61"
    then have "unat v2 < 2 ^ 61" by (simp add: word_less_nat_alt)
    with l(2) show "Sum (bucket_load (bucket_observe (bucket_observe b s v1) (s + 1) v2)) = v2"
      by (simp add: word_unat_eq_iff)
  qed
  with l show ?thesis by simp
qed

theorem second_boundary_resets_witness:
  "(20 :: uint64) < 2 ^ 61
   \<and> unat (Count (bucket_load (bucket_observe (bucket_observe zeroBucket 7 10) (7 + 1) 20))) = 1
   \<and> Sum (bucket_load (bucket_observe (bucket_observe zeroBucket 7 10) (7 + 1) 20)) = 20"
  using second_boundary_resets [of zeroBucket 7 10 20]
  by simp

text \<open>
  C7 as stated fails for a value that does not fit the sum field: the shift drops the
  three high bits of \<open>v2 = 2 ^ 61\<close>, and \<open>load\<close> reports \<open>Sum = 0\<close>.
\<close>

theorem second_boundary_sum_counterexample:
  "bucket_load (bucket_observe (bucket_observe zeroBucket 5 7) (5 + 1) (2 ^ 61))
     = \<lparr>Count = 1, Sum = 0\<rparr>"
  by (simp add: bucket_load_def bucket_observe_def zeroBucket_def counterBytes_def
      counterMusk_def Let_def)

section \<open>Indexing the ring\<close>

lemma smod10_nonneg: "0 \<le> k \<Longrightarrow> k smod bucketsCount = k mod 10" for k :: int
  by (simp add: signed_modulo_int_def bucketsCount_def sgn_if)

lemma smod10_neg: "k < 0 \<Longrightarrow> k smod bucketsCount = - ((- k) mod 10)" for k :: int
  by (simp add: signed_modulo_int_def bucketsCount_def sgn_if)

lemma smod10_range: "- 10 < k smod bucketsCount \<and> k smod bucketsCount < 10" for k :: int
  by (cases "0 \<le> k") (simp_all add: smod10_nonneg smod10_neg)

lemma smod10_neg_iff: "k smod bucketsCount < 0 \<longleftrightarrow> k < 0 \<and> \<not> 10 dvd k" for k :: int
proof (cases "0 \<le> k")
  case True
  then show ?thesis by (simp add: smod10_nonneg)
next
  case False
  then have "k smod bucketsCount = - ((- k) mod 10)" by (simp add: smod10_neg)
  moreover have "0 < (- k) mod 10 \<longleftrightarrow> \<not> 10 dvd k"
    by (simp add: dvd_eq_mod_eq_0 [symmetric] order_less_le)
  ultimately show ?thesis using False by simp
qed

lemma latencyStats_observe_eq:
  assumes "wf_latencyStats s"
  shows "latencyStats_observe s t v =
     (if 0 \<le> sint t smod bucketsCount
      then Inr (s\<lparr>buckets := (buckets s)[nat (sint t smod bucketsCount) :=
                    bucket_observe (buckets s ! nat (sint t smod bucketsCount)) t v]\<rparr>)
      else Inl IndexOutOfRange)"
  using assms smod10_range [of "sint t"]
  by (simp add: latencyStats_observe_def index_bucket_def wf_latencyStats_def Let_def bucketsCount_def)

lemma wf_update: "wf_latencyStats s \<Longrightarrow> wf_latencyStats (s\<lparr>buckets := (buckets s)[k := b]\<rparr>)"
  by (simp add: wf_latencyStats_def)

lemma latencyStats_observes_eq:
  assumes "wf_latencyStats s" "0 \<le> sint t smod bucketsCount"
  shows "latencyStats_observes s t vs =
     Inr (s\<lparr>buckets := (buckets s)[nat (sint t smod bucketsCount) :=
                    bucket_observes (buckets s ! nat (sint t smod bucketsCount)) t vs]\<rparr>)"
  using assms(1)
proof (induction vs arbitrary: s)
  case Nil
  then show ?case by (simp add: bucket_observes_Nil)
next
  case (Cons v vs)
  let ?k = "nat (sint t smod bucketsCount)"
  let ?s' = "s\<lparr>buckets := (buckets s)[?k := bucket_observe (buckets s ! ?k) t v]\<rparr>"
  have k: "?k < length (buckets s)"
    using Cons.prems assms(2) smod10_range [of "sint t"] by (simp add: wf_latencyStats_def bucketsCount_def)
  have "latencyStats_observes s t (v # vs) = latencyStats_observes ?s' t vs"
    by (simp add: latencyStats_observe_eq [OF Cons.prems] assms(2))
  also have "\<dots> = Inr (?s'\<lparr>buckets := (buckets ?s')[?k := bucket_observes (buckets ?s' ! ?k) t vs]\<rparr>)"
    by (rule Cons.IH [OF wf_update [OF Cons.prems]])
  finally show ?case using k by (simp add: bucket_observes_Cons)
qed

lemma index_bucket_ok:
  "0 \<le> k \<Longrightarrow> k < int (length bs) \<Longrightarrow> index_bucket bs k = Inr (bs ! nat k)"
  by (simp add: index_bucket_def)

lemma getLatestStats_loop_ok:
  assumes "wf_latencyStats s" "- 6 \<le> idx" "idx < 10"
  shows "i \<le> 5 \<Longrightarrow> getLatestStats_loop s idx i res =
     Inr (res @ map (\<lambda>j. bucket_load (buckets s ! nat ((idx + 10 - int j) mod 10))) [i..<5])"
proof (induction "5 - i" arbitrary: i res)
  case 0
  then have "i = 5" by simp
  then show ?case by (simp add: getLatestStats_loop.simps [of s idx 5] numOfLastStats_def)
next
  case (Suc n)
  then have i: "i < 5" by simp
  have nn: "0 \<le> idx + bucketsCount - int i" using assms(2) i by (simp add: bucketsCount_def)
  have ix: "index_bucket (buckets s) ((idx + bucketsCount - int i) smod bucketsCount)
          = Inr (buckets s ! nat ((idx + 10 - int i) mod 10))"
  proof -
    have "(idx + bucketsCount - int i) smod bucketsCount = (idx + 10 - int i) mod 10"
      by (simp only: smod10_nonneg [OF nn]) (simp add: bucketsCount_def)
    moreover have "length (buckets s) = 10"
      using assms(1) by (simp add: wf_latencyStats_def bucketsCount_def)
    ultimately show ?thesis by (simp add: index_bucket_ok)
  qed
  have "getLatestStats_loop s idx i res =
        getLatestStats_loop s idx (i + 1) (res @ [bucket_load (buckets s ! nat ((idx + 10 - int i) mod 10))])"
    using i by (subst getLatestStats_loop.simps) (simp add: ix numOfLastStats_def)
  also have "\<dots> = Inr ((res @ [bucket_load (buckets s ! nat ((idx + 10 - int i) mod 10))]) @
        map (\<lambda>j. bucket_load (buckets s ! nat ((idx + 10 - int j) mod 10))) [i + 1..<5])"
    using Suc.hyps(2) i by (intro Suc.hyps(1)) simp_all
  finally show ?case using i by (simp add: upt_conv_Cons)
qed

lemma getLatestStats_loop_panic:
  assumes "wf_latencyStats s" "idx = - 7 \<or> idx = - 8 \<or> idx = - 9"
  shows "getLatestStats_loop s idx 0 [] = Inl IndexOutOfRange"
  using assms
  by (auto simp: getLatestStats_loop.simps [of s idx] numOfLastStats_def index_bucket_def
      wf_latencyStats_def bucketsCount_def signed_modulo_int_def)


lemma wf_zeroLatencyStats: "wf_latencyStats zeroLatencyStats"
  by (simp add: wf_latencyStats_def zeroLatencyStats_def bucketsCount_def)

lemma smod10_shift:
  "(k smod bucketsCount + 10 - int j) mod 10 = (k mod 10 - int j + 10) mod 10" for k :: int
proof -
  have "(k smod bucketsCount) mod 10 = k mod 10"
    by (cases "0 \<le> k") (simp_all add: smod10_nonneg smod10_neg mod_minus_eq)
  then have "(k smod bucketsCount + (10 - int j)) mod 10 = (k mod 10 + (10 - int j)) mod 10"
    by (metis mod_add_left_eq)
  then show ?thesis by (simp add: algebra_simps)
qed

lemma getLatestStats_ok:
  assumes "wf_latencyStats s" "- 6 \<le> sint now smod bucketsCount"
  shows "getLatestStats s now =
     Inr (map (\<lambda>j. bucket_load (buckets s ! nat ((sint now mod 10 - int j + 10) mod 10))) [0..<5])"
  using smod10_range [of "sint now"]
  by (simp add: getLatestStats_def Let_def getLatestStats_loop_ok [OF assms] smod10_shift)

lemma getLatestStats_panic:
  assumes "wf_latencyStats s" "sint now smod bucketsCount \<le> - 7"
  shows "getLatestStats s now = Inl IndexOutOfRange"
proof -
  have "sint now smod bucketsCount = - 7 \<or> sint now smod bucketsCount = - 8
      \<or> sint now smod bucketsCount = - 9"
    using smod10_range [of "sint now"] assms(2) by arith
  then show ?thesis
    by (simp add: getLatestStats_def Let_def getLatestStats_loop_panic [OF assms(1)])
qed

lemma sint_add10:
  fixes t :: int64
  assumes "0 \<le> sint t" "sint t + 10 < 2 ^ 63"
  shows "sint (t + 10) = sint t + 10"
proof -
  have "sint (t + 10) = signed_take_bit 63 (sint t + sint (10 :: int64))"
    by (simp add: sint_word_ariths)
  also have "\<dots> = sint t + 10"
    using assms by (simp add: signed_take_bit_int_eq_self)
  finally show ?thesis .
qed

lemma bucket_observes_ts: "vs \<noteq> [] \<Longrightarrow> ts (bucket_observes b t vs) = t"
proof (induction vs arbitrary: b)
  case Nil
  then show ?case by simp
next
  case (Cons v vs)
  show ?case
  proof (cases vs)
    case Nil
    then show ?thesis by (simp add: bucket_observes_Cons bucket_observes_Nil bucket_observe_ts)
  next
    case (Cons w ws)
    then show ?thesis using Cons.IH [of "bucket_observe b t v"] by (simp add: bucket_observes_Cons)
  qed
qed

lemma bucket_observes_reset:
  assumes "ts b \<noteq> t" "vs \<noteq> []"
  shows "bucket_observes b t vs = \<lparr>countAndTotal = of_nat (8 * sum_of vs + length vs), ts = t\<rparr>"
proof -
  have "window_closed b t vs" using assms by (simp add: window_closed_def)
  then have "countAndTotal (bucket_observes b t vs) = of_nat (8 * sum_of vs + length vs)"
    by (rule bucket_observes_fresh)
  moreover have "ts (bucket_observes b t vs) = t" by (rule bucket_observes_ts [OF assms(2)])
  ultimately show ?thesis by (cases "bucket_observes b t vs") simp
qed

section \<open>Properties of the ring\<close>

text \<open>
  The exact count and sum of at most 7 calls for one second, seen through the ring: for a
  second that is not negative, the calls succeed and the first entry of
  \<open>getLatestStats\<close> for that second carries their number and their exact sum.
\<close>

lemma latencyStats_observe_then_load_exact:
  assumes "wf_latencyStats s" "0 \<le> sint t"
    "window_closed (buckets s ! nat (sint t mod 10)) t vs" "length vs \<le> 7" "sum_of vs < 2 ^ 61"
  shows "\<exists>s' res. latencyStats_observes s t vs = Inr s' \<and> getLatestStats s' t = Inr res
           \<and> unat (Count (res ! 0)) = length vs \<and> unat (Sum (res ! 0)) = sum_of vs"
proof -
  let ?k = "nat (sint t mod 10)"
  let ?s' = "s\<lparr>buckets := (buckets s)[?k := bucket_observes (buckets s ! ?k) t vs]\<rparr>"
  have i: "sint t smod bucketsCount = sint t mod 10" by (rule smod10_nonneg [OF assms(2)])
  have k: "?k < length (buckets s)"
    using assms(1) by (simp add: wf_latencyStats_def bucketsCount_def)
  have r: "latencyStats_observes s t vs = Inr ?s'"
    using latencyStats_observes_eq [OF assms(1), of t vs] by (simp add: i)
  have wf: "wf_latencyStats ?s'" by (rule wf_update [OF assms(1)])
  have g: "getLatestStats ?s' t =
     Inr (map (\<lambda>j. bucket_load (buckets ?s' ! nat ((sint t mod 10 - int j + 10) mod 10))) [0..<5])"
    by (rule getLatestStats_ok [OF wf]) (simp add: i)
  have z: "(map (\<lambda>j. bucket_load (buckets ?s' ! nat ((sint t mod 10 - int j + 10) mod 10))) [0..<5]) ! 0
        = bucket_load (bucket_observes (buckets s ! ?k) t vs)"
    using k by (simp add: upt_conv_Cons)
  have c: "unat (Count (bucket_load (bucket_observes (buckets s ! ?k) t vs))) = length vs"
    using assms(4) by (simp add: bucket_observes_Count [OF assms(3)])
  have "length vs div 8 = 0" using assms(4) by simp
  then have m: "unat (Sum (bucket_load (bucket_observes (buckets s ! ?k) t vs))) = sum_of vs"
    using assms(5) by (simp add: bucket_observes_Sum [OF assms(3)])
  from r g z c m show ?thesis by (metis (no_types, lifting))
qed

text \<open>
  C2 (as amended).  For every time \<open>now\<close> whose Unix second is not negative (more
  generally, whenever Go's remainder \<open>int(now.Unix()) % 10\<close> is at least \<open>-6\<close>),
  \<open>getLatestStats\<close> returns exactly 5 entries, and entry \<open>i\<close> is the \<open>load\<close> of
  bucket \<open>(idx - i + 10) mod 10\<close> with \<open>idx\<close> the Unix second modulo 10: entry 0 is the
  bucket of \<open>now\<close>'s second, and the entries go from newest to oldest.
\<close>

theorem getLatestStats_newest_first:
  assumes "wf_latencyStats s" "0 \<le> sint now \<or> - 6 \<le> sint now smod bucketsCount"
  shows "\<exists>res. getLatestStats s now = Inr res \<and> length res = 5
     \<and> (\<forall>i<5. res ! i = bucket_load (buckets s ! nat ((sint now mod 10 - int i + 10) mod 10)))"
proof -
  have "- 6 \<le> sint now smod bucketsCount"
    using assms(2) by (auto simp: smod10_nonneg)
  from getLatestStats_ok [OF assms(1) this] show ?thesis by simp
qed

theorem getLatestStats_newest_first_witness:
  "wf_latencyStats \<lparr>buckets = [zeroBucket, zeroBucket, zeroBucket, zeroBucket, zeroBucket, zeroBucket,
       \<lparr>countAndTotal = 41, ts = 1234566\<rparr>, \<lparr>countAndTotal = 483, ts = 1234567\<rparr>,
       zeroBucket, zeroBucket]\<rparr>
   \<and> 0 \<le> sint (1234567 :: int64)
   \<and> getLatestStats \<lparr>buckets = [zeroBucket, zeroBucket, zeroBucket, zeroBucket, zeroBucket, zeroBucket,
       \<lparr>countAndTotal = 41, ts = 1234566\<rparr>, \<lparr>countAndTotal = 483, ts = 1234567\<rparr>,
       zeroBucket, zeroBucket]\<rparr> 1234567
     = Inr [\<lparr>Count = 3, Sum = 60\<rparr>, \<lparr>Count = 1, Sum = 5\<rparr>, \<lparr>Count = 0, Sum = 0\<rparr>,
            \<lparr>Count = 0, Sum = 0\<rparr>, \<lparr>Count = 0, Sum = 0\<rparr>]"
  using getLatestStats_newest_first [of "\<lparr>buckets = [zeroBucket, zeroBucket, zeroBucket, zeroBucket, zeroBucket, zeroBucket,
       \<lparr>countAndTotal = 41, ts = 1234566\<rparr>, \<lparr>countAndTotal = 483, ts = 1234567\<rparr>,
       zeroBucket, zeroBucket]\<rparr>" 1234567]
  by (simp add: wf_latencyStats_def getLatestStats_def getLatestStats_loop.simps numOfLastStats_def
      index_bucket_def bucketsCount_def signed_modulo_int_def
      bucket_load_def zeroBucket_def counterMusk_def counterBytes_def)

text \<open>
  C2 as stated, for every time, fails nine seconds before the epoch: Go's remainder is
  \<open>-9\<close>, the third index is \<open>(-9 + 10 - 2) % 10 = -1\<close>, and the access panics.
\<close>

theorem getLatestStats_pre_epoch_counterexample: "getLatestStats zeroLatencyStats (- 9) = Inl IndexOutOfRange"
  by (rule getLatestStats_panic [OF wf_zeroLatencyStats]) (simp add: signed_modulo_int_def bucketsCount_def)

text \<open>
  C6 (as amended).  For every second \<open>t \<ge> 0\<close> for which \<open>t + 10\<close> is still an
  \<open>int64\<close>, \<open>observe\<close> at \<open>t\<close> and at \<open>t + 10\<close> use the same slot \<open>t mod 10\<close>;
  after single-threaded writes \<open>vs\<close> at \<open>t\<close> followed by writes \<open>ws\<close> at \<open>t + 10\<close>
  (both non-empty), the slot is exactly what the writes \<open>ws\<close> alone produce on a zero
  bucket, so \<open>load\<close> shows only the data of \<open>t + 10\<close>.
\<close>

theorem ring_wraparound:
  assumes "wf_latencyStats s" "0 \<le> sint t" "sint t + 10 < 2 ^ 63" "vs \<noteq> []" "ws \<noteq> []"
  shows "sint t smod bucketsCount = sint t mod 10
       \<and> sint (t + 10) smod bucketsCount = sint t mod 10
       \<and> (\<exists>s1 s2. latencyStats_observes s t vs = Inr s1
             \<and> latencyStats_observes s1 (t + 10) ws = Inr s2
             \<and> buckets s2 ! nat (sint t mod 10) = bucket_observes zeroBucket (t + 10) ws
             \<and> (length ws \<le> 7 \<and> sum_of ws < 2 ^ 61 \<longrightarrow>
                  unat (Count (bucket_load (buckets s2 ! nat (sint t mod 10)))) = length ws
                \<and> unat (Sum (bucket_load (buckets s2 ! nat (sint t mod 10)))) = sum_of ws))"
proof -
  let ?k = "nat (sint t mod 10)"
  have i1: "sint t smod bucketsCount = sint t mod 10"
    by (rule smod10_nonneg [OF assms(2)])
  have s10: "sint (t + 10) = sint t + 10" by (rule sint_add10 [OF assms(2,3)])
  have i2: "sint (t + 10) smod bucketsCount = sint t mod 10"
    using assms(2) by (simp add: s10 smod10_nonneg)
  have k: "?k < length (buckets s)"
    using assms(1) by (simp add: wf_latencyStats_def bucketsCount_def)
  define s1 where "s1 = s\<lparr>buckets := (buckets s)[?k := bucket_observes (buckets s ! ?k) t vs]\<rparr>"
  define s2 where "s2 = s1\<lparr>buckets := (buckets s1)[?k := bucket_observes (buckets s1 ! ?k) (t + 10) ws]\<rparr>"
  have r1: "latencyStats_observes s t vs = Inr s1"
    using latencyStats_observes_eq [OF assms(1), of t vs] by (simp add: i1 s1_def)
  have wf1: "wf_latencyStats s1" unfolding s1_def by (rule wf_update [OF assms(1)])
  have r2: "latencyStats_observes s1 (t + 10) ws = Inr s2"
    using latencyStats_observes_eq [OF wf1, of "t + 10" ws] by (simp add: i2 s2_def)
  have b1: "buckets s1 ! ?k = bucket_observes (buckets s ! ?k) t vs"
    using k by (simp add: s1_def)
  have ne: "t \<noteq> t + 10" by simp
  have t1: "ts (buckets s1 ! ?k) \<noteq> t + 10"
    using ne by (simp add: b1 bucket_observes_ts [OF assms(4)])
  have z: "ts zeroBucket \<noteq> t + 10"
  proof
    assume "ts zeroBucket = t + 10"
    then have "sint (t + 10) = 0" by (simp add: zeroBucket_def)
    with s10 assms(2) show False by simp
  qed
  have b2: "buckets s2 ! ?k = bucket_observes zeroBucket (t + 10) ws"
    using k by (simp add: s2_def s1_def [symmetric] b1 [symmetric]
        bucket_observes_reset [OF t1 assms(5)] bucket_observes_reset [OF z assms(5)])
       (simp add: s1_def)
  have wc: "window_closed zeroBucket (t + 10) ws" by (simp add: window_closed_def zeroBucket_def)
  have ex: "length ws \<le> 7 \<and> sum_of ws < 2 ^ 61 \<longrightarrow>
                  unat (Count (bucket_load (buckets s2 ! ?k))) = length ws
                \<and> unat (Sum (bucket_load (buckets s2 ! ?k))) = sum_of ws"
    by (simp add: b2 bucket_observes_Count [OF wc] bucket_observes_Sum [OF wc])
  from i1 i2 r1 r2 b2 ex show ?thesis by blast
qed

theorem ring_wraparound_witness:
  "wf_latencyStats zeroLatencyStats \<and> 0 \<le> sint (1234567 :: int64)
   \<and> sint (1234567 :: int64) + 10 < 2 ^ 63 \<and> [10, 20 :: uint64] \<noteq> [] \<and> [7 :: uint64] \<noteq> []
   \<and> sint (1234567 :: int64) smod bucketsCount = 7
   \<and> sint (1234567 + 10 :: int64) smod bucketsCount = 7
   \<and> (\<exists>s1 s2. latencyStats_observes zeroLatencyStats 1234567 [10, 20] = Inr s1
         \<and> latencyStats_observes s1 (1234567 + 10) [7] = Inr s2
         \<and> buckets s2 ! 7 = bucket_observes zeroBucket (1234567 + 10) [7]
         \<and> unat (Count (bucket_load (buckets s2 ! 7))) = 1
         \<and> unat (Sum (bucket_load (buckets s2 ! 7))) = 7)"
  using ring_wraparound [OF wf_zeroLatencyStats, of 1234567 "[10, 20]" "[7]"]
  by (simp add: wf_zeroLatencyStats sum_of_def)

text \<open>
  C6 as stated, for every second, fails five seconds before the epoch: the index computed
  for \<open>t = -5\<close> is \<open>-5\<close>, the index for \<open>t + 10 = 5\<close> is \<open>5\<close>, and the write at
  \<open>t\<close> panics.
\<close>

theorem ring_wraparound_counterexample:
  "sint (- 5 :: int64) smod bucketsCount = - 5 \<and> sint (- 5 + 10 :: int64) smod bucketsCount = 5
   \<and> latencyStats_observe zeroLatencyStats (- 5) 1 = Inl IndexOutOfRange"
  by (simp add: signed_modulo_int_def bucketsCount_def latencyStats_observe_def index_bucket_def)


text \<open>
  C9 (as amended).  \<open>observe(now, v)\<close> panics with an index out of range exactly when the
  Unix second of \<open>now\<close> is negative and not a multiple of 10; \<open>getLatestStats(now)\<close>
  panics exactly when Go's remainder \<open>int(now.Unix()) % 10\<close> is \<open>-7\<close>, \<open>-8\<close> or
  \<open>-9\<close>.  A Unix second that is not negative is sufficient for both to be safe, but it is
  not necessary.
\<close>

theorem index_panic_characterisation:
  assumes "wf_latencyStats s"
  shows "(sint now < 0 \<and> \<not> 10 dvd sint now \<longrightarrow> latencyStats_observe s now v = Inl IndexOutOfRange)
       \<and> (\<not> (sint now < 0 \<and> \<not> 10 dvd sint now) \<longrightarrow> (\<exists>s'. latencyStats_observe s now v = Inr s'))
       \<and> (sint now smod bucketsCount \<le> - 7 \<longrightarrow> getLatestStats s now = Inl IndexOutOfRange)
       \<and> (\<not> sint now smod bucketsCount \<le> - 7 \<longrightarrow> (\<exists>res. getLatestStats s now = Inr res))
       \<and> (0 \<le> sint now \<longrightarrow> (\<exists>s'. latencyStats_observe s now v = Inr s') \<and> (\<exists>res. getLatestStats s now = Inr res))"
proof -
  have a: "sint now < 0 \<and> \<not> 10 dvd sint now \<longrightarrow> latencyStats_observe s now v = Inl IndexOutOfRange"
    using smod10_neg_iff [of "sint now"] by (auto simp: latencyStats_observe_eq [OF assms])
  have b: "\<not> (sint now < 0 \<and> \<not> 10 dvd sint now) \<longrightarrow> (\<exists>s'. latencyStats_observe s now v = Inr s')"
    using smod10_neg_iff [of "sint now"] by (auto simp: latencyStats_observe_eq [OF assms])
  have c: "sint now smod bucketsCount \<le> - 7 \<longrightarrow> getLatestStats s now = Inl IndexOutOfRange"
    by (simp add: getLatestStats_panic [OF assms])
  have d: "\<not> sint now smod bucketsCount \<le> - 7 \<longrightarrow> (\<exists>res. getLatestStats s now = Inr res)"
    by (simp add: getLatestStats_ok [OF assms])
  have e: "0 \<le> sint now \<longrightarrow> \<not> sint now smod bucketsCount \<le> - 7"
    using smod10_neg_iff [of "sint now"] by auto
  from a b c d e show ?thesis by auto
qed

theorem index_panic_characterisation_witness:
  "wf_latencyStats zeroLatencyStats
   \<and> sint (- 9 :: int64) < 0 \<and> \<not> 10 dvd sint (- 9 :: int64)
   \<and> latencyStats_observe zeroLatencyStats (- 9) 5 = Inl IndexOutOfRange
   \<and> sint (- 9 :: int64) smod bucketsCount \<le> - 7
   \<and> getLatestStats zeroLatencyStats (- 9) = Inl IndexOutOfRange
   \<and> 0 \<le> sint (25 :: int64)
   \<and> (\<exists>s'. latencyStats_observe zeroLatencyStats 25 5 = Inr s')
   \<and> (\<exists>res. getLatestStats zeroLatencyStats 25 = Inr res)"
  using index_panic_characterisation [OF wf_zeroLatencyStats, of "- 9" 5]
        index_panic_characterisation [OF wf_zeroLatencyStats, of 25 5]
  by (simp add: wf_zeroLatencyStats signed_modulo_int_def bucketsCount_def)

text \<open>
  C9 as stated fails: one second before the epoch \<open>getLatestStats\<close> returns its five
  entries, and ten seconds before the epoch \<open>observe\<close> writes into slot 0.
\<close>

theorem pre_epoch_safe_counterexample:
  "sint (- 1 :: int64) < 0
   \<and> getLatestStats zeroLatencyStats (- 1)
        = Inr [\<lparr>Count = 0, Sum = 0\<rparr>, \<lparr>Count = 0, Sum = 0\<rparr>, \<lparr>Count = 0, Sum = 0\<rparr>,
               \<lparr>Count = 0, Sum = 0\<rparr>, \<lparr>Count = 0, Sum = 0\<rparr>]
   \<and> sint (- 10 :: int64) < 0
   \<and> latencyStats_observe zeroLatencyStats (- 10) 5
        = Inr (zeroLatencyStats\<lparr>buckets := (buckets zeroLatencyStats)[0 := \<lparr>countAndTotal = 41, ts = - 10\<rparr>]\<rparr>)"
  by (simp add: getLatestStats_def getLatestStats_loop.simps numOfLastStats_def
      index_bucket_def zeroLatencyStats_def bucketsCount_def signed_modulo_int_def
      bucket_load_def zeroBucket_def counterMusk_def counterBytes_def
      latencyStats_observe_def bucket_observe_def Let_def)

section \<open>Interleavings of \<open>observe\<close>\<close>

lemma cnt_update:
  "i < length gs \<Longrightarrow>
   cnt p (gs[i := g']) + of_bool (pos (gs ! i) = p) = cnt p gs + of_bool (pos g' = p)"
proof (induction gs arbitrary: i)
  case Nil
  then show ?case by simp
next
  case (Cons g gs)
  show ?case
  proof (cases i)
    case 0
    then show ?thesis by (simp add: cnt_def)
  next
    case (Suc j)
    with Cons.prems have "j < length gs" by simp
    from Cons.IH [OF this] Suc show ?thesis by (simp add: cnt_def)
  qed
qed

lemma cnt_update_move:
  assumes "i < length gs" "pos (gs ! i) = p" "pos g' = q" "p \<noteq> q"
  shows "cnt p (gs[i := g']) + 1 = cnt p gs" "cnt q (gs[i := g']) = cnt q gs + 1"
    "r \<noteq> p \<Longrightarrow> r \<noteq> q \<Longrightarrow> cnt r (gs[i := g']) = cnt r gs"
  using cnt_update [OF assms(1), of p g'] cnt_update [OF assms(1), of q g']
    cnt_update [OF assms(1), of r g'] assms(2-4)
  by auto

lemma set_update_cases: "g \<in> set (gs[i := g']) \<Longrightarrow> g = g' \<or> g \<in> set gs"
  using set_update_subset_insert [of gs i g'] by auto

lemma cnt_zero: "(\<forall>g\<in>set gs. pos g \<noteq> p) \<Longrightarrow> cnt p gs = 0"
  by (simp add: cnt_def)

lemma cnt_pos: "g \<in> set gs \<Longrightarrow> pos g = p \<Longrightarrow> 1 \<le> cnt p gs"
  unfolding cnt_def by (induction gs) auto

lemma sched_step_eq:
  "i < length gs \<Longrightarrow> goroutine_step b (gs ! i) = (b', g') \<Longrightarrow>
   sched_step i (b, gs) = (b', gs[i := g'])"
  by (simp add: sched_step_def)

lemma args_update:
  "\<forall>g\<in>set gs. arg_ts g = t \<Longrightarrow> arg_ts g' = t \<Longrightarrow> \<forall>g\<in>set (gs[i := g']). arg_ts g = t"
  by (auto dest: set_update_cases)

lemma phase_same_step:
  assumes "phase_same t (b, gs)" "i < length gs" "arg_ts (gs ! i) = t"
  shows "phase_same t (sched_step i (b, gs))"
proof -
  let ?g = "gs ! i"
  have mem: "?g \<in> set gs" using assms(2) by simp
  from assms(1) have tb: "ts b = t"
    and ps: "\<forall>g\<in>set gs. pos g = AtLoad \<or> pos g = AtAdd \<or> pos g = Returned"
    by (simp_all add: phase_same_def)
  from assms(1) obtain S where S: "countAndTotal b = of_nat (8 * S + cnt Returned gs)"
    by (auto simp: phase_same_def)
  from ps mem consider "pos ?g = AtLoad" | "pos ?g = AtAdd" | "pos ?g = Returned" by blast
  then show ?thesis
  proof cases
    case 1
    let ?g' = "?g\<lparr>pos := AtAdd\<rparr>"
    have st: "sched_step i (b, gs) = (b, gs[i := ?g'])"
      using 1 tb assms(3) by (intro sched_step_eq [OF assms(2)]) (simp add: goroutine_step_def)
    have c: "cnt Returned (gs[i := ?g']) = cnt Returned gs"
      using cnt_update_move(3) [OF assms(2) 1, of ?g' AtAdd Returned] by simp
    have "\<forall>g\<in>set (gs[i := ?g']). pos g = AtLoad \<or> pos g = AtAdd \<or> pos g = Returned"
      using ps by (auto dest: set_update_cases)
    then show ?thesis using tb S c by (auto simp: st phase_same_def)
  next
    case 2
    let ?g' = "?g\<lparr>pos := Returned\<rparr>"
    let ?b' = "b\<lparr>countAndTotal := countAndTotal b + (8 * arg_ms ?g + 1)\<rparr>"
    have st: "sched_step i (b, gs) = (?b', gs[i := ?g'])"
      using 2 by (intro sched_step_eq [OF assms(2)]) (simp add: goroutine_step_def composed_eq)
    have c: "cnt Returned (gs[i := ?g']) = cnt Returned gs + 1"
      using cnt_update_move(2) [OF assms(2) 2, of ?g' Returned] by simp
    have p: "\<forall>g\<in>set (gs[i := ?g']). pos g = AtLoad \<or> pos g = AtAdd \<or> pos g = Returned"
      using ps by (auto dest: set_update_cases)
    have "countAndTotal ?b' = of_nat (8 * (S + unat (arg_ms ?g)) + (cnt Returned gs + 1))"
      by (simp add: S algebra_simps)
    then have "\<exists>S'. countAndTotal ?b' = of_nat (8 * S' + cnt Returned (gs[i := ?g']))"
      unfolding c by blast
    then show ?thesis using tb p by (simp add: st phase_same_def)
  next
    case 3
    then have "sched_step i (b, gs) = (b, gs[i := ?g])"
      by (intro sched_step_eq [OF assms(2)]) (simp add: goroutine_step_def)
    then show ?thesis using assms(1) by simp
  qed
qed

lemma phase_stale_step:
  assumes "phase_stale b0 (b, gs)" "i < length gs" "arg_ts (gs ! i) = t" "ts b0 \<noteq> t"
  shows "phase_stale b0 (sched_step i (b, gs)) \<or> phase_won t (sched_step i (b, gs))"
proof -
  let ?g = "gs ! i"
  have mem: "?g \<in> set gs" using assms(2) by simp
  from assms(1) have tb: "ts b = ts b0"
    and ps: "\<forall>g\<in>set gs. pos g = AtLoad \<or> pos g = AtCAS (ts b0)"
    by (simp_all add: phase_stale_def)
  from ps mem consider "pos ?g = AtLoad" | "pos ?g = AtCAS (ts b0)" by blast
  then show ?thesis
  proof cases
    case 1
    let ?g' = "?g\<lparr>pos := AtCAS (ts b0)\<rparr>"
    have st: "sched_step i (b, gs) = (b, gs[i := ?g'])"
      using 1 tb assms(3,4) by (intro sched_step_eq [OF assms(2)]) (simp add: goroutine_step_def)
    have "\<forall>g\<in>set (gs[i := ?g']). pos g = AtLoad \<or> pos g = AtCAS (ts b0)"
      using ps by (auto dest: set_update_cases)
    then have "phase_stale b0 (sched_step i (b, gs))" using tb by (simp add: st phase_stale_def)
    then show ?thesis ..
  next
    case 2
    let ?g' = "?g\<lparr>pos := AtStore\<rparr>"
    let ?b' = "b\<lparr>ts := t\<rparr>"
    have st: "sched_step i (b, gs) = (?b', gs[i := ?g'])"
      using 2 tb assms(3) by (intro sched_step_eq [OF assms(2)]) (simp add: goroutine_step_def)
    have "\<forall>g\<in>set gs. pos g \<noteq> AtStore" using ps by auto
    then have "cnt AtStore gs = 0" by (rule cnt_zero)
    then have c: "cnt AtStore (gs[i := ?g']) = 1"
      using cnt_update_move(2) [OF assms(2) 2, of ?g' AtStore] by simp
    have "\<forall>g\<in>set (gs[i := ?g']). pos g \<noteq> AtCAS t"
      using ps assms(4) by (auto dest!: set_update_cases)
    then have "phase_won t (sched_step i (b, gs))" using c by (simp add: st phase_won_def)
    then show ?thesis ..
  qed
qed

lemma phase_won_step:
  assumes "phase_won t (b, gs)" "i < length gs" "arg_ts (gs ! i) = t"
  shows "phase_won t (sched_step i (b, gs))"
proof -
  let ?g = "gs ! i"
  have mem: "?g \<in> set gs" using assms(2) by simp
  from assms(1) have tb: "ts b = t"
    and ps: "\<forall>g\<in>set gs. pos g \<noteq> AtCAS t"
    and le: "cnt AtStore gs \<le> 1"
    and dj: "cnt AtStore gs = 1
        \<or> (\<exists>S n. countAndTotal b = of_nat (8 * S + n) \<and> n \<le> cnt Returned gs
                  \<and> 1 \<le> n + cnt AtAdd gs)"
    by (simp_all add: phase_won_def)
  show ?thesis
  proof (cases "pos ?g")
    case AtLoad
    let ?g' = "?g\<lparr>pos := AtAdd\<rparr>"
    have st: "sched_step i (b, gs) = (b, gs[i := ?g'])"
      using AtLoad tb assms(3) by (intro sched_step_eq [OF assms(2)]) (simp add: goroutine_step_def)
    have c: "cnt AtStore (gs[i := ?g']) = cnt AtStore gs" "cnt Returned (gs[i := ?g']) = cnt Returned gs"
      "cnt AtAdd (gs[i := ?g']) = cnt AtAdd gs + 1"
      using cnt_update_move [OF assms(2) AtLoad, of ?g' AtAdd] by simp_all
    have p: "\<forall>g\<in>set (gs[i := ?g']). pos g \<noteq> AtCAS t"
      using ps by (auto dest!: set_update_cases)
    from dj have "cnt AtStore gs = 1
        \<or> (\<exists>S n. countAndTotal b = of_nat (8 * S + n) \<and> n \<le> cnt Returned gs
                  \<and> 1 \<le> n + (cnt AtAdd gs + 1))"
      by auto
    then show ?thesis using tb p le by (simp add: st phase_won_def c)
  next
    case (AtCAS oldTs)
    with ps mem have ne: "oldTs \<noteq> t" by auto
    let ?g' = "?g\<lparr>pos := AtAdd\<rparr>"
    have st: "sched_step i (b, gs) = (b, gs[i := ?g'])"
      using AtCAS tb ne by (intro sched_step_eq [OF assms(2)]) (auto simp: goroutine_step_def)
    have c: "cnt AtStore (gs[i := ?g']) = cnt AtStore gs" "cnt Returned (gs[i := ?g']) = cnt Returned gs"
      "cnt AtAdd (gs[i := ?g']) = cnt AtAdd gs + 1"
      using cnt_update_move [OF assms(2) AtCAS, of ?g' AtAdd] by simp_all
    have p: "\<forall>g\<in>set (gs[i := ?g']). pos g \<noteq> AtCAS t"
      using ps by (auto dest!: set_update_cases)
    from dj have "cnt AtStore gs = 1
        \<or> (\<exists>S n. countAndTotal b = of_nat (8 * S + n) \<and> n \<le> cnt Returned gs
                  \<and> 1 \<le> n + (cnt AtAdd gs + 1))"
      by auto
    then show ?thesis using tb p le by (simp add: st phase_won_def c)
  next
    case AtStore
    let ?g' = "?g\<lparr>pos := AtAdd\<rparr>"
    let ?b' = "b\<lparr>countAndTotal := 0\<rparr>"
    have st: "sched_step i (b, gs) = (?b', gs[i := ?g'])"
      using AtStore by (intro sched_step_eq [OF assms(2)]) (simp add: goroutine_step_def)
    have "1 \<le> cnt AtStore gs" by (rule cnt_pos [OF mem AtStore])
    with le have one: "cnt AtStore gs = 1" by simp
    have c: "cnt AtStore (gs[i := ?g']) = 0" "cnt AtAdd (gs[i := ?g']) = cnt AtAdd gs + 1"
      using cnt_update_move(1,2) [OF assms(2) AtStore, of ?g' AtAdd] one by simp_all
    have p: "\<forall>g\<in>set (gs[i := ?g']). pos g \<noteq> AtCAS t"
      using ps by (auto dest!: set_update_cases)
    have "countAndTotal ?b' = of_nat (8 * 0 + 0) \<and> 0 \<le> cnt Returned (gs[i := ?g'])
          \<and> 1 \<le> 0 + cnt AtAdd (gs[i := ?g'])"
      by (simp add: c)
    then have "\<exists>S n. countAndTotal ?b' = of_nat (8 * S + n) \<and> n \<le> cnt Returned (gs[i := ?g'])
          \<and> 1 \<le> n + cnt AtAdd (gs[i := ?g'])"
      by blast
    then show ?thesis using tb p c(1) by (simp add: st phase_won_def)
  next
    case AtAdd
    let ?g' = "?g\<lparr>pos := Returned\<rparr>"
    let ?b' = "b\<lparr>countAndTotal := countAndTotal b + (8 * arg_ms ?g + 1)\<rparr>"
    have st: "sched_step i (b, gs) = (?b', gs[i := ?g'])"
      using AtAdd by (intro sched_step_eq [OF assms(2)]) (simp add: goroutine_step_def composed_eq)
    have c: "cnt AtStore (gs[i := ?g']) = cnt AtStore gs" "cnt Returned (gs[i := ?g']) = cnt Returned gs + 1"
      "cnt AtAdd (gs[i := ?g']) + 1 = cnt AtAdd gs"
      using cnt_update_move [OF assms(2) AtAdd, of ?g' Returned] by simp_all
    have p: "\<forall>g\<in>set (gs[i := ?g']). pos g \<noteq> AtCAS t"
      using ps by (auto dest!: set_update_cases)
    have "cnt AtStore gs = 1
        \<or> (\<exists>S n. countAndTotal ?b' = of_nat (8 * S + n) \<and> n \<le> cnt Returned (gs[i := ?g'])
                  \<and> 1 \<le> n + cnt AtAdd (gs[i := ?g']))"
      using dj
    proof
      assume "cnt AtStore gs = 1"
      then show ?thesis ..
    next
      assume "\<exists>S n. countAndTotal b = of_nat (8 * S + n) \<and> n \<le> cnt Returned gs
                  \<and> 1 \<le> n + cnt AtAdd gs"
      then obtain S n where Sn: "countAndTotal b = of_nat (8 * S + n)" "n \<le> cnt Returned gs"
        "1 \<le> n + cnt AtAdd gs" by blast
      have "countAndTotal ?b' = of_nat (8 * (S + unat (arg_ms ?g)) + (n + 1))"
        by (simp add: Sn(1) algebra_simps)
      moreover have "n + 1 \<le> cnt Returned (gs[i := ?g'])" using Sn(2) c(2) by simp
      moreover have "1 \<le> (n + 1) + cnt AtAdd (gs[i := ?g'])" by simp
      ultimately show ?thesis by blast
    qed
    then show ?thesis using tb p le by (simp add: st phase_won_def c(1))
  next
    case Returned
    then have "sched_step i (b, gs) = (b, gs[i := ?g])"
      by (intro sched_step_eq [OF assms(2)]) (simp add: goroutine_step_def)
    then show ?thesis using assms(1) by simp
  qed
qed

lemma goroutine_step_arg_ts: "arg_ts (snd (goroutine_step b g)) = arg_ts g"
  by (simp add: goroutine_step_def Let_def split: position.split)

lemma inv_step_in:
  assumes "observe_inv b0 t (b, gs)" and lt: "i < length gs"
  shows "observe_inv b0 t (sched_step i (b, gs))"
proof -
  from assms(1) have args: "\<forall>g\<in>set gs. arg_ts g = t" by (simp add: observe_inv_def)
  with lt have ai: "arg_ts (gs ! i) = t" by simp
  obtain b' g' where gst: "goroutine_step b (gs ! i) = (b', g')"
    by (cases "goroutine_step b (gs ! i)") blast
  have st: "sched_step i (b, gs) = (b', gs[i := g'])" by (rule sched_step_eq [OF lt gst])
  have "arg_ts (snd (goroutine_step b (gs ! i))) = t"
    by (simp only: goroutine_step_arg_ts ai)
  then have "arg_ts g' = t" by (simp only: gst snd_conv)
  with args have "\<forall>g\<in>set (gs[i := g']). arg_ts g = t" by (rule args_update)
  then have args': "\<forall>g\<in>set (snd (sched_step i (b, gs))). arg_ts g = t"
    by (simp only: st snd_conv)
  show ?thesis
  proof (cases "ts b0 = t")
    case True
    with assms(1) have "phase_same t (b, gs)" by (simp add: observe_inv_def)
    then have "phase_same t (sched_step i (b, gs))" by (rule phase_same_step [OF _ lt ai])
    with args' True show ?thesis unfolding observe_inv_def by simp
  next
    case False
    with assms(1) have "phase_stale b0 (b, gs) \<or> phase_won t (b, gs)" by (simp add: observe_inv_def)
    then have "phase_stale b0 (sched_step i (b, gs)) \<or> phase_won t (sched_step i (b, gs))"
    proof
      assume "phase_stale b0 (b, gs)"
      then show ?thesis by (rule phase_stale_step [OF _ lt ai False])
    next
      assume "phase_won t (b, gs)"
      then have "phase_won t (sched_step i (b, gs))" by (rule phase_won_step [OF _ lt ai])
      then show ?thesis ..
    qed
    with args' False show ?thesis unfolding observe_inv_def by simp
  qed
qed

lemma inv_step: "observe_inv b0 t c \<Longrightarrow> observe_inv b0 t (sched_step i c)"
proof (cases c)
  case (Pair b gs)
  assume a: "observe_inv b0 t c"
  show ?thesis
  proof (cases "i < length gs")
    case False
    then have "sched_step i c = c" by (simp add: Pair sched_step_def)
    with a show ?thesis by simp
  next
    case True
    from a have "observe_inv b0 t (b, gs)" by (simp only: Pair)
    then have "observe_inv b0 t (sched_step i (b, gs))" using True by (rule inv_step_in)
    then show ?thesis by (simp only: Pair)
  qed
qed

lemma inv_run: "observe_inv b0 t c \<Longrightarrow> observe_inv b0 t (run sched c)"
  unfolding run_def by (induction sched arbitrary: c) (simp_all add: inv_step)

lemma cnt_spawn: "p \<noteq> AtLoad \<Longrightarrow> cnt p (map (spawn t) vs) = 0"
  by (rule cnt_zero) (auto simp: spawn_def)

lemma inv_init:
  assumes "countAndTotal b0 = 0 \<or> ts b0 \<noteq> t"
  shows "observe_inv b0 t (b0, map (spawn t) vs)"
proof -
  have a: "\<forall>g\<in>set (map (spawn t) vs). arg_ts g = t \<and> pos g = AtLoad" by (auto simp: spawn_def)
  show ?thesis
  proof (cases "ts b0 = t")
    case True
    with assms have "countAndTotal b0 = of_nat (8 * 0 + cnt Returned (map (spawn t) vs))"
      by (simp add: cnt_spawn)
    then have "\<exists>S. countAndTotal b0 = of_nat (8 * S + cnt Returned (map (spawn t) vs))" by blast
    then show ?thesis using True a by (simp add: observe_inv_def phase_same_def)
  next
    case False
    then show ?thesis using a by (simp add: observe_inv_def phase_stale_def)
  qed
qed

lemma cnt_all: "\<forall>g\<in>set gs. pos g = p \<Longrightarrow> cnt p gs = length gs"
  by (simp add: cnt_def)

lemma inv_final:
  assumes "observe_inv b0 t (b, gs)" "all_returned (b, gs)" "gs \<noteq> []"
  shows "\<exists>S n. countAndTotal b = of_nat (8 * S + n) \<and> 1 \<le> n \<and> n \<le> length gs"
proof -
  from assms(2) have r: "\<forall>g\<in>set gs. pos g = Returned" by (simp add: all_returned_def list_all_iff)
  then have cr: "cnt Returned gs = length gs" by (rule cnt_all)
  from r have "\<forall>g\<in>set gs. pos g \<noteq> AtStore" "\<forall>g\<in>set gs. pos g \<noteq> AtAdd" by auto
  then have cz: "cnt AtStore gs = 0" "cnt AtAdd gs = 0" by (simp_all add: cnt_zero)
  from assms(3) obtain g where g: "g \<in> set gs" by (cases gs) auto
  with r have pg: "pos g = Returned" by simp
  from assms(3) have len: "1 \<le> length gs" by (cases gs) simp_all
  show ?thesis
  proof (cases "ts b0 = t")
    case True
    with assms(1) obtain S where "countAndTotal b = of_nat (8 * S + cnt Returned gs)"
      by (auto simp: observe_inv_def phase_same_def)
    with cr len show ?thesis by auto
  next
    case False
    with assms(1) have "phase_stale b0 (b, gs) \<or> phase_won t (b, gs)" by (simp add: observe_inv_def)
    moreover have "\<not> phase_stale b0 (b, gs)"
    proof
      assume "phase_stale b0 (b, gs)"
      then have "pos g = AtLoad \<or> pos g = AtCAS (ts b0)" using g by (simp add: phase_stale_def)
      with pg show False by simp
    qed
    ultimately have "phase_won t (b, gs)" by simp
    then obtain S n where "countAndTotal b = of_nat (8 * S + n)" "n \<le> cnt Returned gs"
      "1 \<le> n + cnt AtAdd gs"
      using cz by (auto simp: phase_won_def)
    with cr cz show ?thesis by auto
  qed
qed

lemma sched_step_length: "length (snd (sched_step i c)) = length (snd c)"
  by (cases c) (simp add: sched_step_def split: prod.split)

lemma run_length: "length (snd (run sched c)) = length (snd c)"
  unfolding run_def by (induction sched arbitrary: c) (simp_all add: sched_step_length)

lemma Count_of_packed:
  assumes "countAndTotal b = of_nat (8 * S + n)"
  shows "unat (Count (bucket_load b)) = n mod 8"
proof -
  have "unat (countAndTotal b) = (8 * S + n) mod 2 ^ 64"
    by (simp only: assms unat_of_nat) simp
  then show ?thesis by (simp only: bucket_load_Count mod8_of_wrapped)
qed

lemma steps_left_le: "steps_left p \<le> 4"
  by (cases p) simp_all

lemma goroutine_step_progress:
  "steps_left (pos (snd (goroutine_step b g))) \<le> steps_left (pos g) - 1"
  by (cases "pos g") (simp_all add: goroutine_step_def Let_def)

lemma sched_step_progress:
  assumes "j < length (snd c)"
  shows "steps_left (pos (snd (sched_step i c) ! j))
           \<le> steps_left (pos (snd c ! j)) - (if i = j then 1 else 0)"
proof (cases c)
  case (Pair b gs)
  obtain b' g' where g: "goroutine_step b (gs ! i) = (b', g')"
    by (cases "goroutine_step b (gs ! i)") blast
  from goroutine_step_progress [of b "gs ! i"]
  have p: "steps_left (pos g') \<le> steps_left (pos (gs ! i)) - 1" by (simp only: g snd_conv)
  show ?thesis
  proof (cases "i < length gs")
    case True
    then have "sched_step i c = (b', gs[i := g'])" unfolding Pair by (rule sched_step_eq [OF _ g])
    then show ?thesis using assms p by (auto simp: Pair nth_list_update)
  next
    case False
    then have "sched_step i c = c" by (simp add: Pair sched_step_def)
    then show ?thesis using assms False by (auto simp: Pair)
  qed
qed

lemma run_Cons: "run (i # sched) c = run sched (sched_step i c)"
  by (simp add: run_def)

lemma run_progress:
  "j < length (snd c) \<Longrightarrow>
   steps_left (pos (snd (run sched c) ! j)) \<le> steps_left (pos (snd c ! j)) - count_list sched j"
proof (induction sched arbitrary: c)
  case Nil
  then show ?case by (simp add: run_def)
next
  case (Cons i sched)
  have l: "j < length (snd (sched_step i c))" using Cons.prems by (simp add: sched_step_length)
  from Cons.IH [OF l] sched_step_progress [OF Cons.prems, of i]
  show ?case by (auto simp: run_Cons)
qed

lemma fair_schedule_returns:
  assumes "\<forall>j<length gs. 4 \<le> count_list sched j"
  shows "all_returned (run sched (b, gs))"
proof -
  have "pos g = Returned" if "g \<in> set (snd (run sched (b, gs)))" for g
  proof -
    from that obtain j where j: "j < length (snd (run sched (b, gs)))"
      and gj: "g = snd (run sched (b, gs)) ! j"
      by (auto simp: in_set_conv_nth)
    from j have jl: "j < length gs" by (simp add: run_length)
    then have "j < length (snd (b, gs))" by simp
    from run_progress [OF this, of sched] assms jl steps_left_le [of "pos (gs ! j)"]
    have "steps_left (pos g) = 0" by (auto simp: gj)
    then show ?thesis by (cases "pos g") simp_all
  qed
  then show ?thesis by (simp add: all_returned_def list_all_iff)
qed

lemma alone_is_bucket_observe:
  "run [0, 0, 0, 0] (b, [spawn t v])
     = (bucket_observe b t v, [\<lparr>pos = Returned, arg_ts = t, arg_ms = v\<rparr>])"
  by (cases b) (simp add: run_def sched_step_def goroutine_step_def spawn_def bucket_observe_def Let_def)

text \<open>
  C10 (as amended).  \<open>M \<ge> 1\<close> goroutines each call \<open>observe\<close> once for the same second
  \<open>t\<close>, on a bucket holding no sample of \<open>t\<close>.  In every interleaving, once all have
  returned, the loaded \<open>Count\<close> is at most \<open>M\<close>; if \<open>M \<le> 7\<close> it is strictly positive.
\<close>

theorem concurrent_observe_count:
  assumes "countAndTotal b0 = 0 \<or> ts b0 \<noteq> t" "vs \<noteq> []"
    "all_returned (run sched (b0, map (spawn t) vs))"
  shows "unat (Count (bucket_load (fst (run sched (b0, map (spawn t) vs))))) \<le> length vs
       \<and> (length vs \<le> 7 \<longrightarrow> 0 < unat (Count (bucket_load (fst (run sched (b0, map (spawn t) vs))))))"
proof -
  obtain b gs where r: "run sched (b0, map (spawn t) vs) = (b, gs)"
    by (cases "run sched (b0, map (spawn t) vs)")
  have i: "observe_inv b0 t (b, gs)"
    using inv_run [OF inv_init [OF assms(1)], of sched vs] by (simp add: r)
  have l: "length gs = length vs"
    using run_length [of sched "(b0, map (spawn t) vs)"] by (simp add: r)
  with assms(2) have ne: "gs \<noteq> []" by auto
  from assms(3) have "all_returned (b, gs)" by (simp add: r)
  from inv_final [OF i this ne] obtain S n where
    Sn: "countAndTotal b = of_nat (8 * S + n)" "1 \<le> n" "n \<le> length gs" by blast
  have c: "unat (Count (bucket_load b)) = n mod 8" by (rule Count_of_packed [OF Sn(1)])
  have "n mod 8 \<le> n" by simp
  with Sn(3) l have "unat (Count (bucket_load b)) \<le> length vs" by (simp add: c)
  moreover have "length vs \<le> 7 \<longrightarrow> 0 < unat (Count (bucket_load b))"
    using Sn(2,3) l by (auto simp: c)
  ultimately show ?thesis by (simp add: r)
qed

theorem concurrent_observe_count_witness:
  "(countAndTotal zeroBucket = 0 \<or> ts zeroBucket \<noteq> 100) \<and> [10, 20, 30 :: uint64] \<noteq> []
   \<and> all_returned (run [0, 0, 1, 1, 0, 0, 2, 2] (zeroBucket, map (spawn 100) [10, 20, 30]))
   \<and> length [10, 20, 30 :: uint64] \<le> 7
   \<and> bucket_load (fst (run [0, 0, 1, 1, 0, 0, 2, 2] (zeroBucket, map (spawn 100) [10, 20, 30])))
        = \<lparr>Count = 2, Sum = 40\<rparr>
   \<and> unat (Count (bucket_load (fst (run [0, 0, 1, 1, 0, 0, 2, 2]
         (zeroBucket, map (spawn 100) [10, 20, 30]))))) \<le> length [10, 20, 30 :: uint64]
   \<and> 0 < unat (Count (bucket_load (fst (run [0, 0, 1, 1, 0, 0, 2, 2]
         (zeroBucket, map (spawn 100) [10, 20, 30])))))"
  using concurrent_observe_count [of zeroBucket 100 "[10, 20, 30]" "[0, 0, 1, 1, 0, 0, 2, 2]"]
  by (simp add: run_def sched_step_def goroutine_step_def spawn_def zeroBucket_def counterBytes_def
      Let_def all_returned_def bucket_load_def counterMusk_def)

text \<open>
  C10 as stated, for every \<open>M \<ge> 1\<close>, fails for \<open>M = 8\<close>: when the eight goroutines run
  one after the other no update is lost, the 3-bit count field wraps, and \<open>Count = 0\<close>.
\<close>

theorem concurrent_count_zero_counterexample:
  "all_returned (run [0, 0, 0, 0, 1, 1, 2, 2, 3, 3, 4, 4, 5, 5, 6, 6, 7, 7]
       (zeroBucket, map (spawn 100) [1, 1, 1, 1, 1, 1, 1, 1]))
   \<and> bucket_load (fst (run [0, 0, 0, 0, 1, 1, 2, 2, 3, 3, 4, 4, 5, 5, 6, 6, 7, 7]
       (zeroBucket, map (spawn 100) [1, 1, 1, 1, 1, 1, 1, 1]))) = \<lparr>Count = 0, Sum = 9\<rparr>"
  by (simp add: run_def sched_step_def goroutine_step_def spawn_def zeroBucket_def counterBytes_def
      Let_def all_returned_def bucket_load_def counterMusk_def)

end
